theory Spec2Isabelle
  imports Main
begin

section \<open>The background-sync worker of the KYC application: upload queue and drain cycle\<close>

text \<open>
  The worker (the second part of \<^verbatim>\<open>src/server.js\<close>, \<^verbatim>\<open>sw.js\<close>) keeps the uploads that
  failed while offline in an object store with auto-incremented keys and, on the platform's
  \<^verbatim>\<open>sync\<close> event tagged \<^verbatim>\<open>sync-uploads\<close>, replays every queued request and deletes the
  ones whose replay was answered with a success status.

  The embedding is shallow: every promise is a value of a sum type (\<open>Inl\<close> a rejection,
  \<open>Inr\<close> the value it resolves with), the object store is passed explicitly, and what the
  network and the storage layer do is read from an environment record, one per drain cycle.
\<close>

subsection \<open>Data\<close>

text \<open>
  A queued request as the worker reads it: \<^verbatim>\<open>req.url\<close>, \<^verbatim>\<open>req.method\<close>, \<^verbatim>\<open>req.headers\<close>,
  \<^verbatim>\<open>req.body\<close>. The body is opaque to the worker. (The field \<^verbatim>\<open>method\<close> is written
  \<open>method'\<close>.)
\<close>

record queued_request =
  url :: string
  method' :: string
  headers :: "(string \<times> string) list"
  body :: string

text \<open>
  An element of the snapshot built by \<^verbatim>\<open>getAllFromStore\<close>:
  \<^verbatim>\<open>{ ...cursor.value, key: cursor.primaryKey }\<close>.
\<close>

record item = queued_request +
  key :: nat

text \<open>
  What \<^verbatim>\<open>fetch\<close> can do: reject (a transport-level failure), or resolve with a response
  that carries an HTTP status.
\<close>

datatype fetch_outcome = NetworkFailure | Response nat

text \<open>
  Everything that is thrown or rejected in the worker:
  \<^item> \<open>OpenError\<close>: \<^verbatim>\<open>reject("IndexedDB error: " + ...)\<close> in \<^verbatim>\<open>openDB\<close>;
  \<^item> \<open>CursorError\<close>: \<^verbatim>\<open>reject(event.target.error)\<close> in \<^verbatim>\<open>getAllFromStore\<close>;
  \<^item> \<open>DeleteError\<close>: \<^verbatim>\<open>reject(event.target.error)\<close> in \<^verbatim>\<open>deleteFromStore\<close>;
  \<^item> \<open>NetworkError\<close>: the rejection of \<^verbatim>\<open>fetch\<close>;
  \<^item> \<open>StatusError s\<close>: \<^verbatim>\<open>new Error(`Server responded with status: ${response.status}`)\<close>.
\<close>

datatype error = OpenError | CursorError | DeleteError | NetworkError | StatusError nat

text \<open>
  The line an entry's handler writes to the console: \<^verbatim>\<open>console.log('Successfully uploaded
  queued request:', ...)\<close> or \<^verbatim>\<open>console.error('Failed to upload queued request, will retry
  later.', error)\<close>.
\<close>

datatype handler_log = Uploaded | Failed error

text \<open>
  The object store \<^verbatim>\<open>upload_queue\<close>: its records, held in ascending order of their keys
  (the order in which a cursor visits them), and the current number of its key generator.
\<close>

record store =
  records :: "(nat \<times> queued_request) list"
  next_key :: nat

text \<open>
  The database \<^verbatim>\<open>BharatKYC-DB\<close>: \<open>None\<close> before its first open, afterwards the object store
  that \<^verbatim>\<open>onupgradeneeded\<close> created.
\<close>

type_synonym database = "store option"

text \<open>
  The environment of one drain cycle: whether the open request fails, whether the cursor
  request (or the transaction it runs in) fails, for which keys the delete request (or the
  transaction it needs) fails, and what \<^verbatim>\<open>fetch\<close> does for each element of the snapshot.
\<close>

record env =
  open_fails :: bool
  cursor_fails :: bool
  del_fails :: "nat \<Rightarrow> bool"
  net :: "item \<Rightarrow> fetch_outcome"

subsection \<open>The object store\<close>

text \<open>
  Modelled from the spec: the object store itself is the platform's (IndexedDB) and is not
  under \<^verbatim>\<open>src/\<close>; the source only creates it with \<^verbatim>\<open>{ autoIncrement: true }\<close>. A store
  created so is empty and its key generator stands at 1.
\<close>

definition createObjectStore :: store where
  "createObjectStore = \<lparr>records = [], next_key = 1\<rparr>"

text \<open>
  Modelled from the spec: storing a record under a key keeps the records in ascending key
  order; a record already stored under that key is replaced.
\<close>

fun store_record :: "nat \<Rightarrow> queued_request \<Rightarrow> (nat \<times> queued_request) list \<Rightarrow> (nat \<times> queued_request) list" where
  "store_record k v [] = [(k, v)]"
| "store_record k v ((k', v') # rs) =
     (if k < k' then (k, v) # (k', v') # rs
      else if k = k' then (k, v) # rs
      else (k', v') # store_record k v rs)"

text \<open>
  Modelled from the spec: \<open>put(request) -> key\<close> of the enqueuer, which is not under
  \<^verbatim>\<open>src/\<close>. The store assigns the next key of its generator and advances the generator.
\<close>

definition store_put :: "queued_request \<Rightarrow> store \<Rightarrow> nat \<times> store" where
  "store_put r st =
     (next_key st,
      \<lparr>records = store_record (next_key st) r (records st), next_key = Suc (next_key st)\<rparr>)"

text \<open>
  Modelled from the spec: \<open>delete(key)\<close> of the platform's store, which the source calls as
  \<^verbatim>\<open>store.delete(key)\<close>: the record stored under the key is removed, and a key that is not
  present leaves the store as it is. The key generator is not touched.
\<close>

definition store_delete :: "nat \<Rightarrow> store \<Rightarrow> store" where
  "store_delete k st = st\<lparr>records := filter (\<lambda>(k', v). k' \<noteq> k) (records st)\<rparr>"

text \<open>The keys present in a store.\<close>

definition keys :: "store \<Rightarrow> nat set" where
  "keys st = fst ` set (records st)"

text \<open>
  The invariant of an object store with a key generator: the keys ascend strictly (so they
  are unique) and the generator is beyond every key present.
\<close>

definition wf_store :: "store \<Rightarrow> bool" where
  "wf_store st \<longleftrightarrow>
     sorted_wrt (<) (map fst (records st)) \<and> list_all (\<lambda>(k, v). k < next_key st) (records st)"

subsection \<open>The worker's functions\<close>

text \<open>
  \<^verbatim>\<open>openDB\<close>: the open request fails (the promise rejects, the database is as before), or
  it succeeds and gives the database, in which \<^verbatim>\<open>onupgradeneeded\<close> has created the object
  store if the database is new.
\<close>

definition objectStore :: "database \<Rightarrow> store" where
  "objectStore db = (case db of None \<Rightarrow> createObjectStore | Some st \<Rightarrow> st)"

definition openDB :: "env \<Rightarrow> database \<Rightarrow> error + store" where
  "openDB env db = (if open_fails env then Inl OpenError else Inr (objectStore db))"

text \<open>
  \<^verbatim>\<open>getAllFromStore\<close>: the cursor visits the records in key order; each \<^verbatim>\<open>onsuccess\<close> pushes
  the record's value with its primary key onto \<^verbatim>\<open>items\<close> and continues; at the end the
  promise resolves with \<^verbatim>\<open>items\<close>. A failing request rejects the promise. The store is
  only read.
\<close>

definition mk_item :: "nat \<Rightarrow> queued_request \<Rightarrow> item" where
  "mk_item k v = \<lparr>url = url v, method' = method' v, headers = headers v, body = body v, key = k\<rparr>"

fun cursor_items :: "(nat \<times> queued_request) list \<Rightarrow> item list \<Rightarrow> item list" where
  "cursor_items [] items = items"
| "cursor_items ((k, v) # rest) items = cursor_items rest (items @ [mk_item k v])"

definition getAllFromStore :: "env \<Rightarrow> store \<Rightarrow> error + item list" where
  "getAllFromStore env st =
     (if cursor_fails env then Inl CursorError else Inr (cursor_items (records st) []))"

text \<open>
  \<^verbatim>\<open>deleteFromStore\<close>: the promise of \<^verbatim>\<open>store.delete(key)\<close>; it rejects when the request
  fails and resolves when the store has carried the deletion out.
\<close>

definition deleteFromStore :: "env \<Rightarrow> store \<Rightarrow> nat \<Rightarrow> error + store" where
  "deleteFromStore env st k = (if del_fails env k then Inl DeleteError else Inr (store_delete k st))"

text \<open>\<^verbatim>\<open>response.ok\<close>: the status is in the range 200 to 299.\<close>

definition response_ok :: "nat \<Rightarrow> bool" where
  "response_ok status \<longleftrightarrow> 200 \<le> status \<and> status \<le> 299"

text \<open>
  The callback that \<^verbatim>\<open>processUploadQueue\<close> maps over the snapshot. Everything thrown
  inside \<^verbatim>\<open>try\<close> (the rejection of \<^verbatim>\<open>fetch\<close>, the error for a response that is not ok,
  the rejection of the deletion) ends in \<^verbatim>\<open>catch\<close>, which only writes to the console; the
  callback's promise always resolves.
\<close>

definition handler :: "env \<Rightarrow> item \<Rightarrow> store \<Rightarrow> handler_log \<times> store" where
  "handler env req st =
     (case net env req of
        NetworkFailure \<Rightarrow> (Failed NetworkError, st)
      | Response status \<Rightarrow>
          if \<not> response_ok status then (Failed (StatusError status), st)
          else (case deleteFromStore env st (key req) of
                  Inl e \<Rightarrow> (Failed e, st)
                | Inr st' \<Rightarrow> (Uploaded, st')))"

text \<open>
  \<^verbatim>\<open>Promise.all(requests.map(...))\<close>: every callback runs; the store goes from one to the
  next. The callbacks touch the store only by deleting their own key, so the order in which
  they finish does not show in the final store (lemmas \<open>run_handlers_order\<close> and
  \<open>cycle_run_agrees\<close> below).
\<close>

fun run_handlers :: "env \<Rightarrow> item list \<Rightarrow> store \<Rightarrow> handler_log list \<times> store" where
  "run_handlers env [] st = ([], st)"
| "run_handlers env (req # reqs) st =
     (let (l, st1) = handler env req st;
          (ls, st2) = run_handlers env reqs st1
      in (l # ls, st2))"

text \<open>
  \<^verbatim>\<open>processUploadQueue\<close>: open the database, enumerate the store, run the callbacks. A
  rejection of \<^verbatim>\<open>openDB\<close> or of \<^verbatim>\<open>getAllFromStore\<close> rejects the cycle's promise; otherwise
  the promise resolves once every callback has (the list returned here holds, for each
  element of the snapshot, the console line of its callback). The second component is the
  database after the cycle.
\<close>

definition processUploadQueue :: "env \<Rightarrow> database \<Rightarrow> (error + handler_log list) \<times> database" where
  "processUploadQueue env db =
     (case openDB env db of
        Inl e \<Rightarrow> (Inl e, db)
      | Inr st \<Rightarrow>
          (case getAllFromStore env st of
             Inl e \<Rightarrow> (Inl e, Some st)
           | Inr requests \<Rightarrow>
               (let (logs, st') = run_handlers env requests st in (Inr logs, Some st'))))"

text \<open>
  The listener of the \<^verbatim>\<open>sync\<close> event: a drain cycle for the tag \<^verbatim>\<open>sync-uploads\<close>, nothing
  for any other tag. \<open>None\<close> says that no cycle was started.
\<close>

definition on_sync :: "string \<Rightarrow> env \<Rightarrow> database \<Rightarrow> (error + handler_log list) option \<times> database" where
  "on_sync tag env db =
     (if tag = ''sync-uploads''
      then (let (res, db') = processUploadQueue env db in (Some res, db'))
      else (None, db))"

text \<open>Whether the replay of a snapshot element is answered with a success status.\<close>

definition replay_ok :: "env \<Rightarrow> item \<Rightarrow> bool" where
  "replay_ok env req = (case net env req of NetworkFailure \<Rightarrow> False | Response status \<Rightarrow> response_ok status)"

text \<open>
  A snapshot element's callback leaves its record in the store unless the replay is answered
  with a success status and the deletion of its key is carried out.
\<close>

definition removes :: "env \<Rightarrow> item \<Rightarrow> bool" where
  "removes env req \<longleftrightarrow> replay_ok env req \<and> \<not> del_fails env (key req)"

text \<open>The queue of a database: the records of its object store, in key order.\<close>

definition queue :: "database \<Rightarrow> (nat \<times> queued_request) list" where
  "queue db = records (objectStore db)"

text \<open>Several drain cycles one after the other, each with its own environment.\<close>

fun drain_cycles :: "env list \<Rightarrow> database \<Rightarrow> database" where
  "drain_cycles [] db = db"
| "drain_cycles (env # envs) db = drain_cycles envs (snd (processUploadQueue env db))"

subsection \<open>Histories of a store\<close>

text \<open>
  The operations that change a store: a put of the enqueuer and a deletion (the drain cycle
  deletes by key). \<open>run_ops\<close> applies a history to a store and returns the keys that the
  puts were given, in the order of the puts, and the store at the end. An operation that the
  storage layer fails leaves the store as it was and so does not appear in a history.
\<close>

datatype store_op = Put queued_request | Delete nat

fun run_ops :: "store_op list \<Rightarrow> store \<Rightarrow> nat list \<times> store" where
  "run_ops [] st = ([], st)"
| "run_ops (Put r # ops) st =
     (let (k, st1) = store_put r st; (ks, st2) = run_ops ops st1 in (k # ks, st2))"
| "run_ops (Delete k # ops) st = run_ops ops (store_delete k st)"

text \<open>
  Modelled from the spec: the queue in the spec's words, for comparison with the store
  above. The entries are kept in insertion order: a put appends the request under the next
  key, a deletion removes the entry with the key, and \<open>list()\<close> returns the entries as they
  stand.
\<close>

fun insertion_order :: "store_op list \<Rightarrow> nat \<Rightarrow> (nat \<times> queued_request) list \<Rightarrow> (nat \<times> queued_request) list" where
  "insertion_order [] n es = es"
| "insertion_order (Put r # ops) n es = insertion_order ops (Suc n) (es @ [(n, r)])"
| "insertion_order (Delete k # ops) n es = insertion_order ops n (filter (\<lambda>(k', v). k' \<noteq> k) es)"

subsection \<open>Drain cycles that overlap\<close>

text \<open>
  The worker runs on one thread: a second call of \<^verbatim>\<open>processUploadQueue\<close> can run only while
  the first waits at an \<^verbatim>\<open>await\<close>. A cycle is therefore a sequence of steps, each between
  two waits: the open request is answered; the cursor has delivered the snapshot (the
  enumeration runs in one transaction of the store); the \<^verbatim>\<open>fetch\<close> of one element of the
  snapshot is answered and its callback finishes (its deletion is one request in its own
  transaction); \<^verbatim>\<open>Promise.all\<close> resolves when no callback is pending. The callbacks of a
  snapshot may finish in any order. The console lines are collected in the order in which
  the callbacks finish.
\<close>

datatype cycle =
    Idle
  | Opened
  | Running "item list" "handler_log list"
  | Done "error + handler_log list"

inductive cycle_step :: "env \<Rightarrow> database \<times> cycle \<Rightarrow> database \<times> cycle \<Rightarrow> bool" for env :: env where
  open_rejects: "openDB env db = Inl e \<Longrightarrow> cycle_step env (db, Idle) (db, Done (Inl e))"
| open_resolves: "openDB env db = Inr st \<Longrightarrow> cycle_step env (db, Idle) (Some st, Opened)"
| cursor_rejects:
    "getAllFromStore env (objectStore db) = Inl e \<Longrightarrow> cycle_step env (db, Opened) (db, Done (Inl e))"
| snapshot:
    "getAllFromStore env (objectStore db) = Inr reqs \<Longrightarrow>
     cycle_step env (db, Opened) (db, Running reqs [])"
| settle:
    "handler env req (objectStore db) = (l, st') \<Longrightarrow>
     cycle_step env (db, Running (xs @ req # ys) ls) (Some st', Running (xs @ ys) (ls @ [l]))"
| resolve: "cycle_step env (db, Running [] ls) (db, Done (Inr ls))"

text \<open>Two cycles on the same database, each with its own environment.\<close>

inductive par_step :: "env \<Rightarrow> env \<Rightarrow> database \<times> cycle \<times> cycle \<Rightarrow> database \<times> cycle \<times> cycle \<Rightarrow> bool"
  for envA :: env and envB :: env where
  first: "cycle_step envA (db, a) (db', a') \<Longrightarrow> par_step envA envB (db, a, b) (db', a', b)"
| second: "cycle_step envB (db, b) (db', b') \<Longrightarrow> par_step envA envB (db, a, b) (db', a, b')"

text \<open>The number of records that a step takes out of the store.\<close>

definition removed :: "database \<times> cycle \<times> cycle \<Rightarrow> database \<times> cycle \<times> cycle \<Rightarrow> nat" where
  "removed s s' = length (queue (fst s)) - length (queue (fst s'))"

text \<open>
  A run of the two cycles, with the number of records taken out of the store along it.
\<close>

inductive par_run :: "env \<Rightarrow> env \<Rightarrow> nat \<Rightarrow> database \<times> cycle \<times> cycle \<Rightarrow> database \<times> cycle \<times> cycle \<Rightarrow> bool"
  for envA :: env and envB :: env where
  start: "par_run envA envB 0 s s"
| step:
    "par_run envA envB n s s' \<Longrightarrow> par_step envA envB s' s'' \<Longrightarrow>
     par_run envA envB (n + removed s' s'') s s''"

text \<open>
  The invariant of a cycle in a run over a queue that held the one record \<open>(k, v)\<close> at the
  start, \<open>q\<close> being the queue now: a cycle with callbacks pending has at most the record's
  element pending, and has it pending as long as the record is in the queue; its console
  lines so far are those of successful uploads; a cycle that is done has resolved, and the
  queue is empty.
\<close>

definition cycle_ok :: "nat \<Rightarrow> queued_request \<Rightarrow> (nat \<times> queued_request) list \<Rightarrow> cycle \<Rightarrow> bool" where
  "cycle_ok k v q c =
     (case c of
        Idle \<Rightarrow> True
      | Opened \<Rightarrow> True
      | Running pending ls \<Rightarrow>
          set ls \<subseteq> {Uploaded} \<and> set pending \<subseteq> {mk_item k v} \<and> (q = [] \<or> pending = [mk_item k v])
      | Done res \<Rightarrow> q = [] \<and> (case res of Inl e \<Rightarrow> False | Inr ls \<Rightarrow> set ls \<subseteq> {Uploaded}))"

subsection \<open>Example data\<close>

definition document_upload :: queued_request where
  "document_upload =
     \<lparr>url = ''/api/kyc/document-upload'', method' = ''POST'', headers = [], body = ''document''\<rparr>"

definition face_scan :: queued_request where
  "face_scan = \<lparr>url = ''/api/kyc/face-scan'', method' = ''POST'', headers = [], body = ''face-scan''\<rparr>"

definition status_request :: queued_request where
  "status_request = \<lparr>url = ''/api/user/status/42'', method' = ''GET'', headers = [], body = []\<rparr>"

text \<open>A store holding the first two under the keys 1 and 2.\<close>

definition two_queued :: store where
  "two_queued = \<lparr>records = [(1, document_upload), (2, face_scan)], next_key = 3\<rparr>"

text \<open>A store holding the first alone.\<close>

definition one_queued :: store where
  "one_queued = \<lparr>records = [(1, document_upload)], next_key = 2\<rparr>"

text \<open>Every request is answered with 200 and the storage layer works.\<close>

definition online :: env where
  "online = \<lparr>open_fails = False, cursor_fails = False, del_fails = (\<lambda>k. False), net = (\<lambda>req. Response 200)\<rparr>"

text \<open>Every request fails at the transport level.\<close>

definition offline :: env where
  "offline = \<lparr>open_fails = False, cursor_fails = False, del_fails = (\<lambda>k. False), net = (\<lambda>req. NetworkFailure)\<rparr>"

text \<open>Every request is answered with 500.\<close>

definition server_down :: env where
  "server_down = \<lparr>open_fails = False, cursor_fails = False, del_fails = (\<lambda>k. False), net = (\<lambda>req. Response 500)\<rparr>"

text \<open>The request under key 1 fails at the transport level, every other is answered with 200.\<close>

definition first_unreachable :: env where
  "first_unreachable =
     \<lparr>open_fails = False, cursor_fails = False, del_fails = (\<lambda>k. False),
      net = (\<lambda>req. if key req = 1 then NetworkFailure else Response 200)\<rparr>"

text \<open>Every request is answered with 200, and the deletion of key 1 fails.\<close>

definition delete_broken :: env where
  "delete_broken =
     \<lparr>open_fails = False, cursor_fails = False, del_fails = (\<lambda>k. k = 1), net = (\<lambda>req. Response 200)\<rparr>"

text \<open>The cursor request fails.\<close>

definition cursor_broken :: env where
  "cursor_broken = \<lparr>open_fails = False, cursor_fails = True, del_fails = (\<lambda>k. False), net = (\<lambda>req. Response 200)\<rparr>"

section \<open>Properties\<close>

subsection \<open>The object store\<close>

lemma store_delete_absent: "k \<notin> keys st \<Longrightarrow> store_delete k st = st"
proof -
  assume "k \<notin> keys st"
  then have "\<forall>x \<in> set (records st). (\<lambda>(k', v). k' \<noteq> k) x"
    by (force simp: keys_def)
  then have "filter (\<lambda>(k', v). k' \<noteq> k) (records st) = records st"
    by (simp only: filter_id_conv)
  then show ?thesis
    by (simp add: store_delete_def)
qed

lemma keys_store_delete: "keys (store_delete k st) = keys st - {k}"
  by (auto simp: keys_def store_delete_def)

subsection \<open>The enumeration and the callbacks\<close>

lemma cursor_items_append: "cursor_items rs acc = acc @ map (\<lambda>(k, v). mk_item k v) rs"
  by (induction rs acc rule: cursor_items.induct) simp_all

lemma getAllFromStore_resolves:
  "\<not> cursor_fails env \<Longrightarrow> getAllFromStore env st = Inr (map (\<lambda>(k, v). mk_item k v) (records st))"
  by (simp add: getAllFromStore_def cursor_items_append)

lemma key_mk_item: "key (mk_item k v) = k"
  by (simp add: mk_item_def)

lemma handler_store:
  "snd (handler env req st) = (if removes env req then store_delete (key req) st else st)"
  by (simp add: handler_def removes_def replay_ok_def deleteFromStore_def
      split: fetch_outcome.split)

lemma handler_line:
  "fst (handler env req st) =
     (case net env req of
        NetworkFailure \<Rightarrow> Failed NetworkError
      | Response status \<Rightarrow>
          if \<not> response_ok status then Failed (StatusError status)
          else if del_fails env (key req) then Failed DeleteError else Uploaded)"
  by (simp add: handler_def deleteFromStore_def split: fetch_outcome.split)

lemma handler_line_store: "fst (handler env req st) = fst (handler env req st')"
  by (simp add: handler_line)

lemma run_handlers_lines:
  "fst (run_handlers env reqs st) = map (\<lambda>req. fst (handler env req st0)) reqs"
proof (induction reqs arbitrary: st)
  case Nil
  show ?case by simp
next
  case (Cons req reqs)
  show ?case
    using Cons.IH [of "snd (handler env req st)"] handler_line_store [of env req st st0]
    by (simp add: split_beta Let_def)
qed

lemma run_handlers_next_key: "next_key (snd (run_handlers env reqs st)) = next_key st"
proof (induction reqs arbitrary: st)
  case Nil
  show ?case by simp
next
  case (Cons req reqs)
  show ?case
    using Cons.IH [of "snd (handler env req st)"]
    by (simp add: split_beta Let_def handler_store store_delete_def)
qed

lemma run_handlers_records:
  "records (snd (run_handlers env reqs st)) =
     filter (\<lambda>(k, v). \<not> (\<exists>req \<in> set reqs. removes env req \<and> key req = k)) (records st)"
proof (induction reqs arbitrary: st)
  case Nil
  show ?case by simp
next
  case (Cons req reqs)
  show ?case
    using Cons.IH [of "snd (handler env req st)"]
    by (auto simp: split_beta Let_def handler_store store_delete_def intro!: filter_cong)
qed

subsection \<open>The invariant of the store\<close>

lemma wf_store_distinct: "wf_store st \<Longrightarrow> distinct (map fst (records st))"
  by (simp add: wf_store_def strict_sorted_iff [symmetric] sorted_wrt_iff_nth_less distinct_conv_nth)
    (metis less_irrefl_nat linorder_neqE_nat)

lemma wf_store_filter:
  "wf_store st \<Longrightarrow> wf_store (st\<lparr>records := filter P (records st)\<rparr>)"
  by (auto simp: wf_store_def sorted_wrt_map sorted_wrt_filter list_all_iff)

lemma wf_store_delete: "wf_store st \<Longrightarrow> wf_store (store_delete k st)"
  by (simp add: store_delete_def wf_store_filter)

lemma wf_createObjectStore: "wf_store createObjectStore"
  by (simp add: wf_store_def createObjectStore_def)

subsection \<open>One drain cycle\<close>

lemma snapshot_removes:
  assumes "distinct (map fst rs)" and "(k, v) \<in> set rs"
  shows "(\<exists>req \<in> set (map (\<lambda>(k, v). mk_item k v) rs). removes env req \<and> key req = k)
           \<longleftrightarrow> removes env (mk_item k v)"
proof
  assume "\<exists>req \<in> set (map (\<lambda>(k, v). mk_item k v) rs). removes env req \<and> key req = k"
  then obtain k' v' where in_rs: "(k', v') \<in> set rs" and rm: "removes env (mk_item k' v')"
    and k: "key (mk_item k' v') = k"
    by auto
  from k have "k' = k" by (simp add: key_mk_item)
  with assms in_rs have "v' = v"
    by (auto dest: eq_key_imp_eq_value)
  with rm \<open>k' = k\<close> show "removes env (mk_item k v)" by simp
next
  assume "removes env (mk_item k v)"
  with assms(2) show "\<exists>req \<in> set (map (\<lambda>(k, v). mk_item k v) rs). removes env req \<and> key req = k"
    by (force simp: key_mk_item)
qed

lemma process_open_rejects:
  "open_fails env \<Longrightarrow> processUploadQueue env db = (Inl OpenError, db)"
  by (simp add: processUploadQueue_def openDB_def)

lemma process_cursor_rejects:
  "\<not> open_fails env \<Longrightarrow> cursor_fails env \<Longrightarrow>
   processUploadQueue env db = (Inl CursorError, Some (objectStore db))"
  by (simp add: processUploadQueue_def openDB_def getAllFromStore_def)

lemma process_resolves:
  assumes "\<not> open_fails env" and "\<not> cursor_fails env"
  shows "processUploadQueue env db =
    (Inr (map (\<lambda>(k, v). fst (handler env (mk_item k v) (objectStore db))) (queue db)),
     Some (snd (run_handlers env (map (\<lambda>(k, v). mk_item k v) (queue db)) (objectStore db))))"
  using assms
  by (simp add: processUploadQueue_def openDB_def getAllFromStore_resolves split_beta queue_def
      run_handlers_lines [where ?st0.0 = "objectStore db"] comp_def)

lemma process_queue:
  assumes "wf_store (objectStore db)" and "\<not> open_fails env" and "\<not> cursor_fails env"
  shows "queue (snd (processUploadQueue env db)) =
           filter (\<lambda>(k, v). \<not> removes env (mk_item k v)) (queue db)"
proof -
  have d: "distinct (map fst (queue db))"
    using assms(1) by (simp add: queue_def wf_store_distinct)
  have "queue (snd (processUploadQueue env db)) =
      filter (\<lambda>(k, v). \<not> (\<exists>req \<in> set (map (\<lambda>(k, v). mk_item k v) (queue db)).
         removes env req \<and> key req = k)) (queue db)"
    using assms(2,3) by (simp add: process_resolves run_handlers_records queue_def objectStore_def)
  also have "\<dots> = filter (\<lambda>(k, v). \<not> removes env (mk_item k v)) (queue db)"
  proof (rule filter_cong [OF refl])
    fix x
    assume x: "x \<in> set (queue db)"
    obtain k v where kv: "x = (k, v)" by (cases x)
    have eq: "(\<exists>req \<in> set (map (\<lambda>(k, v). mk_item k v) (queue db)). removes env req \<and> key req = k)
        \<longleftrightarrow> removes env (mk_item k v)"
      by (rule snapshot_removes [OF d]) (use x kv in simp)
    show "(case x of (k, v) \<Rightarrow> \<not> (\<exists>req \<in> set (map (\<lambda>(k, v). mk_item k v) (queue db)).
         removes env req \<and> key req = k)) = (case x of (k, v) \<Rightarrow> \<not> removes env (mk_item k v))"
      by (simp only: kv prod.case eq)
  qed
  finally show ?thesis .
qed

lemma process_next_key:
  "next_key (objectStore (snd (processUploadQueue env db))) = next_key (objectStore db)"
  by (cases "open_fails env"; cases "cursor_fails env")
    (simp_all add: process_open_rejects process_cursor_rejects process_resolves
      run_handlers_next_key objectStore_def)

lemma wf_run_handlers: "wf_store st \<Longrightarrow> wf_store (snd (run_handlers env reqs st))"
proof (induction reqs arbitrary: st)
  case Nil
  then show ?case by simp
next
  case (Cons req reqs)
  from Cons.prems have "wf_store (snd (handler env req st))"
    by (simp add: handler_store wf_store_delete)
  from Cons.IH [OF this] show ?case
    by (simp add: split_beta Let_def)
qed

lemma wf_process:
  "wf_store (objectStore db) \<Longrightarrow> wf_store (objectStore (snd (processUploadQueue env db)))"
  by (cases "open_fails env"; cases "cursor_fails env")
    (simp_all add: process_open_rejects process_cursor_rejects process_resolves
      wf_run_handlers objectStore_def)

lemma queue_Some: "queue (Some st) = records st"
  by (simp add: queue_def objectStore_def)

lemma process_queue_rejected:
  "open_fails env \<or> cursor_fails env \<Longrightarrow> queue (snd (processUploadQueue env db)) = queue db"
  by (cases "open_fails env")
    (auto simp: process_open_rejects process_cursor_rejects queue_def objectStore_def)

lemma not_removes_stays:
  assumes "wf_store (objectStore db)" and "(k, v) \<in> set (queue db)"
    and "\<not> removes env (mk_item k v)"
  shows "(k, v) \<in> set (queue (snd (processUploadQueue env db)))"
proof (cases "open_fails env \<or> cursor_fails env")
  case True
  with assms(2) show ?thesis by (simp add: process_queue_rejected)
next
  case False
  with assms show ?thesis by (simp add: process_queue)
qed

lemma removes_gone:
  assumes "wf_store (objectStore db)" and "\<not> open_fails env" and "\<not> cursor_fails env"
    and "(k, v) \<in> set (queue db)" and "removes env (mk_item k v)"
  shows "k \<notin> keys (objectStore (snd (processUploadQueue env db)))"
proof
  assume "k \<in> keys (objectStore (snd (processUploadQueue env db)))"
  then obtain v' where in_after: "(k, v') \<in> set (queue (snd (processUploadQueue env db)))"
    by (auto simp: keys_def queue_def)
  with assms(1-3) have in_before: "(k, v') \<in> set (queue db)" and keep: "\<not> removes env (mk_item k v')"
    by (simp_all add: process_queue)
  from assms(1) have "distinct (map fst (queue db))"
    by (simp add: queue_def wf_store_distinct)
  with in_before assms(4) have "v' = v"
    by (auto dest: eq_key_imp_eq_value)
  with keep assms(5) show False by simp
qed

lemma snapshot_member:
  "\<not> cursor_fails env \<Longrightarrow> (k, v) \<in> set (records st) \<Longrightarrow>
   \<exists>items. getAllFromStore env st = Inr items \<and> mk_item k v \<in> set items"
  by (force simp: getAllFromStore_resolves)

subsection \<open>Deletion after success only\<close>

text \<open>
  C1. Deletion after success only. For every record of the store at the start of a drain
  cycle that takes its snapshot (the open request and the cursor request succeed):
  \<^item> if the replay of the record is not answered with a success status (a transport-level
    failure, or a status outside 200 to 299), its callback requests no deletion (it leaves
    any store as it is), the record is still in the store after the cycle, under the same
    key and with the same value, and the next enumeration returns it;
  \<^item> if the replay is answered with a success status, the callback requests the deletion
    of the record's key: its outcome is that of \<^verbatim>\<open>deleteFromStore\<close> for this key;
  \<^item> the storage layer carrying out the deletion of the key, the key is gone from the
    store after the cycle if and only if the replay was answered with a success status.
\<close>

theorem delete_iff_replay_success:
  assumes "wf_store (objectStore db)" and "\<not> open_fails env" and "\<not> cursor_fails env"
    and "(k, v) \<in> set (queue db)"
  shows "(\<not> replay_ok env (mk_item k v) \<longrightarrow>
            (\<forall>st. snd (handler env (mk_item k v) st) = st) \<and>
            (k, v) \<in> set (queue (snd (processUploadQueue env db))) \<and>
            (\<not> cursor_fails env' \<longrightarrow>
               (\<exists>items. getAllFromStore env' (objectStore (snd (processUploadQueue env db))) = Inr items \<and>
                  mk_item k v \<in> set items))) \<and>
         (replay_ok env (mk_item k v) \<longrightarrow>
            (\<forall>st. handler env (mk_item k v) st =
               (case deleteFromStore env st k of Inl e \<Rightarrow> (Failed e, st) | Inr st' \<Rightarrow> (Uploaded, st')))) \<and>
         (\<not> del_fails env k \<longrightarrow>
            (k \<notin> keys (objectStore (snd (processUploadQueue env db))) \<longleftrightarrow> replay_ok env (mk_item k v)))"
proof (intro conjI impI allI)
  assume failed: "\<not> replay_ok env (mk_item k v)"
  then have keep: "\<not> removes env (mk_item k v)" by (simp add: removes_def)
  then show "snd (handler env (mk_item k v) st) = st" for st
    by (simp add: handler_store)
  from assms(1,4) keep show stays: "(k, v) \<in> set (queue (snd (processUploadQueue env db)))"
    by (rule not_removes_stays)
  show "\<exists>items. getAllFromStore env' (objectStore (snd (processUploadQueue env db))) = Inr items \<and>
      mk_item k v \<in> set items" if "\<not> cursor_fails env'"
    using that stays by (auto simp: queue_def dest: snapshot_member)
next
  fix st
  assume "replay_ok env (mk_item k v)"
  then show "handler env (mk_item k v) st =
      (case deleteFromStore env st k of Inl e \<Rightarrow> (Failed e, st) | Inr st' \<Rightarrow> (Uploaded, st'))"
    by (cases "net env (mk_item k v)") (simp_all add: handler_def replay_ok_def key_mk_item)
next
  assume works: "\<not> del_fails env k"
  show "k \<notin> keys (objectStore (snd (processUploadQueue env db))) \<longleftrightarrow> replay_ok env (mk_item k v)"
  proof
    assume gone: "k \<notin> keys (objectStore (snd (processUploadQueue env db)))"
    show "replay_ok env (mk_item k v)"
    proof (rule ccontr)
      assume "\<not> replay_ok env (mk_item k v)"
      then have "\<not> removes env (mk_item k v)" by (simp add: removes_def)
      with assms(1,4) have "(k, v) \<in> set (queue (snd (processUploadQueue env db)))"
        by (rule not_removes_stays)
      then have "k \<in> keys (objectStore (snd (processUploadQueue env db)))"
        by (force simp: keys_def queue_def)
      with gone show False by simp
    qed
  next
    assume "replay_ok env (mk_item k v)"
    with works have "removes env (mk_item k v)" by (simp add: removes_def key_mk_item)
    with assms show "k \<notin> keys (objectStore (snd (processUploadQueue env db)))"
      by (rule removes_gone)
  qed
qed

lemma wf_two_queued: "wf_store two_queued"
  by (simp add: wf_store_def two_queued_def)

lemma process_server_down:
  "processUploadQueue server_down (Some two_queued) =
     (Inr [Failed (StatusError 500), Failed (StatusError 500)], Some two_queued)"
  by (simp add: processUploadQueue_def openDB_def getAllFromStore_def objectStore_def
      server_down_def two_queued_def handler_def response_ok_def)

lemma process_online:
  "processUploadQueue online (Some two_queued) =
     (Inr [Uploaded, Uploaded], Some \<lparr>records = [], next_key = 3\<rparr>)"
  by (simp add: processUploadQueue_def openDB_def getAllFromStore_def objectStore_def
      online_def two_queued_def handler_def response_ok_def deleteFromStore_def store_delete_def
      mk_item_def)

theorem delete_iff_replay_success_witness:
  "wf_store (objectStore (Some two_queued)) \<and> \<not> open_fails server_down \<and> \<not> cursor_fails server_down \<and>
   (1, document_upload) \<in> set (queue (Some two_queued)) \<and>
   \<not> replay_ok server_down (mk_item 1 document_upload) \<and>
   (1, document_upload) \<in> set (queue (snd (processUploadQueue server_down (Some two_queued)))) \<and>
   handler server_down (mk_item 1 document_upload) two_queued = (Failed (StatusError 500), two_queued) \<and>
   \<not> open_fails online \<and> \<not> cursor_fails online \<and> \<not> del_fails online 1 \<and>
   replay_ok online (mk_item 1 document_upload) \<and>
   handler online (mk_item 1 document_upload) two_queued =
     (Uploaded, \<lparr>records = [(2, face_scan)], next_key = 3\<rparr>) \<and>
   1 \<notin> keys (objectStore (snd (processUploadQueue online (Some two_queued))))"
  using delete_iff_replay_success [of "Some two_queued" server_down 1 document_upload online]
    delete_iff_replay_success [of "Some two_queued" online 1 document_upload online]
  by (simp add: wf_two_queued objectStore_def queue_Some process_server_down process_online keys_def)
    (simp add: two_queued_def server_down_def online_def replay_ok_def response_ok_def handler_def
      deleteFromStore_def store_delete_def mk_item_def)

subsection \<open>Isolation of the entries\<close>

lemma process_line_nth:
  assumes "\<not> open_fails env" and "\<not> cursor_fails env"
    and "i < length (queue db)" and "queue db ! i = (k, v)"
  shows "\<exists>logs. fst (processUploadQueue env db) = Inr logs \<and> length logs = length (queue db) \<and>
           logs ! i = fst (handler env (mk_item k v) st)"
  using assms handler_line_store [of env "mk_item k v" "objectStore db" st]
  by (simp add: process_resolves)

text \<open>
  C2. Per-entry failure isolation. In a drain cycle that takes its snapshot, what happens to
  a record depends on its own replay only: if two environments answer the replay of the
  record alike and treat the deletion of its key alike, then, whatever they do for the
  other records, the record is in the store after the one cycle exactly when it is after
  the other, and its console line is the same; and both cycles resolve with one line for
  every record. In particular, for a store of two records where the replay of the first
  fails at the transport level and the replay of the second is answered with a success
  status (the deletion of its key being carried out), the cycle resolves, the first record
  is still queued and the second is removed.
\<close>

theorem per_entry_failure_isolation:
  assumes "wf_store (objectStore db)"
    and "\<not> open_fails env" and "\<not> cursor_fails env"
    and "\<not> open_fails env'" and "\<not> cursor_fails env'"
  shows "(\<forall>i k v. i < length (queue db) \<and> queue db ! i = (k, v) \<and>
            net env (mk_item k v) = net env' (mk_item k v) \<and> del_fails env k = del_fails env' k \<longrightarrow>
            ((k, v) \<in> set (queue (snd (processUploadQueue env db))) \<longleftrightarrow>
             (k, v) \<in> set (queue (snd (processUploadQueue env' db)))) \<and>
            (\<exists>logs logs'. fst (processUploadQueue env db) = Inr logs \<and>
               fst (processUploadQueue env' db) = Inr logs' \<and>
               length logs = length (queue db) \<and> length logs' = length (queue db) \<and>
               logs ! i = logs' ! i)) \<and>
         (\<forall>k1 v1 k2 v2 status. queue db = [(k1, v1), (k2, v2)] \<and>
            net env (mk_item k1 v1) = NetworkFailure \<and>
            net env (mk_item k2 v2) = Response status \<and> response_ok status \<and> \<not> del_fails env k2 \<longrightarrow>
            fst (processUploadQueue env db) = Inr [Failed NetworkError, Uploaded] \<and>
            queue (snd (processUploadQueue env db)) = [(k1, v1)])"
proof (intro conjI allI impI)
  fix i k v
  assume h: "i < length (queue db) \<and> queue db ! i = (k, v) \<and>
    net env (mk_item k v) = net env' (mk_item k v) \<and> del_fails env k = del_fails env' k"
  then have same: "removes env (mk_item k v) = removes env' (mk_item k v)"
    by (simp add: removes_def replay_ok_def key_mk_item)
  from h have mem: "(k, v) \<in> set (queue db)"
    by (metis nth_mem)
  show "(k, v) \<in> set (queue (snd (processUploadQueue env db))) \<longleftrightarrow>
        (k, v) \<in> set (queue (snd (processUploadQueue env' db)))"
    using assms mem same by (simp add: process_queue)
  have line: "fst (handler env (mk_item k v) (objectStore db)) = fst (handler env' (mk_item k v) (objectStore db))"
    using h by (simp add: handler_line key_mk_item)
  from process_line_nth [OF assms(2,3), of i db k v "objectStore db"] h
  obtain logs where logs: "fst (processUploadQueue env db) = Inr logs"
      "length logs = length (queue db)" "logs ! i = fst (handler env (mk_item k v) (objectStore db))"
    by blast
  from process_line_nth [OF assms(4,5), of i db k v "objectStore db"] h
  obtain logs' where logs': "fst (processUploadQueue env' db) = Inr logs'"
      "length logs' = length (queue db)" "logs' ! i = fst (handler env' (mk_item k v) (objectStore db))"
    by blast
  from logs logs' line
  show "\<exists>logs logs'. fst (processUploadQueue env db) = Inr logs \<and>
               fst (processUploadQueue env' db) = Inr logs' \<and>
               length logs = length (queue db) \<and> length logs' = length (queue db) \<and>
               logs ! i = logs' ! i"
    by simp
next
  fix k1 v1 k2 v2 status
  assume h: "queue db = [(k1, v1), (k2, v2)] \<and>
            net env (mk_item k1 v1) = NetworkFailure \<and>
            net env (mk_item k2 v2) = Response status \<and> response_ok status \<and> \<not> del_fails env k2"
  then show "fst (processUploadQueue env db) = Inr [Failed NetworkError, Uploaded]"
    using assms(2,3) by (simp add: process_resolves handler_line key_mk_item)
  from h have "\<not> removes env (mk_item k1 v1)" and "removes env (mk_item k2 v2)"
    by (simp_all add: removes_def replay_ok_def key_mk_item)
  with h show "queue (snd (processUploadQueue env db)) = [(k1, v1)]"
    using assms(1-3) by (simp add: process_queue)
qed

lemma process_first_unreachable:
  "processUploadQueue first_unreachable (Some two_queued) =
     (Inr [Failed NetworkError, Uploaded], Some \<lparr>records = [(1, document_upload)], next_key = 3\<rparr>)"
  by (simp add: processUploadQueue_def openDB_def getAllFromStore_def objectStore_def
      first_unreachable_def two_queued_def handler_def response_ok_def deleteFromStore_def
      store_delete_def mk_item_def)

theorem per_entry_failure_isolation_witness:
  "wf_store (objectStore (Some two_queued)) \<and>
   \<not> open_fails first_unreachable \<and> \<not> cursor_fails first_unreachable \<and>
   \<not> open_fails online \<and> \<not> cursor_fails online \<and>
   queue (Some two_queued) = [(1, document_upload), (2, face_scan)] \<and>
   net first_unreachable (mk_item 1 document_upload) = NetworkFailure \<and>
   net first_unreachable (mk_item 2 face_scan) = Response 200 \<and> response_ok 200 \<and>
   \<not> del_fails first_unreachable 2 \<and>
   net first_unreachable (mk_item 2 face_scan) = net online (mk_item 2 face_scan) \<and>
   del_fails first_unreachable 2 = del_fails online 2 \<and>
   fst (processUploadQueue first_unreachable (Some two_queued)) = Inr [Failed NetworkError, Uploaded] \<and>
   fst (processUploadQueue online (Some two_queued)) = Inr [Uploaded, Uploaded] \<and>
   queue (snd (processUploadQueue first_unreachable (Some two_queued))) = [(1, document_upload)] \<and>
   queue (snd (processUploadQueue online (Some two_queued))) = []"
  using per_entry_failure_isolation [of "Some two_queued" first_unreachable online]
  by (simp add: wf_two_queued objectStore_def queue_Some process_first_unreachable process_online)
    (simp add: two_queued_def first_unreachable_def online_def response_ok_def mk_item_def)

subsection \<open>Entries whose replay keeps failing\<close>

lemma wf_drain_cycles:
  "wf_store (objectStore db) \<Longrightarrow> wf_store (objectStore (drain_cycles envs db))"
  by (induction envs arbitrary: db) (simp_all add: wf_process)

text \<open>
  C3. A record whose replay is never answered with a success status stays queued: if in
  each of any number of drain cycles, run one after the other, the replay of the record
  fails (whatever happens to the other records, and whether or not a cycle gets as far as
  its snapshot), the record is still in the store after the last cycle, and an enumeration
  of the store returns it.
\<close>

theorem failed_entry_stays_queued:
  assumes "wf_store (objectStore db)" and "(k, v) \<in> set (queue db)"
    and "\<forall>env \<in> set envs. \<not> replay_ok env (mk_item k v)"
  shows "(k, v) \<in> set (queue (drain_cycles envs db)) \<and>
         (\<not> cursor_fails env' \<longrightarrow>
            (\<exists>items. getAllFromStore env' (objectStore (drain_cycles envs db)) = Inr items \<and>
               mk_item k v \<in> set items))"
proof -
  from assms have stays: "(k, v) \<in> set (queue (drain_cycles envs db))"
  proof (induction envs arbitrary: db)
    case Nil
    then show ?case by simp
  next
    case (Cons env envs)
    from Cons.prems(3) have "\<not> removes env (mk_item k v)"
      by (simp add: removes_def)
    with Cons.prems(1,2) have "(k, v) \<in> set (queue (snd (processUploadQueue env db)))"
      by (rule not_removes_stays)
    moreover from Cons.prems(1) have "wf_store (objectStore (snd (processUploadQueue env db)))"
      by (rule wf_process)
    moreover from Cons.prems(3) have "\<forall>env \<in> set envs. \<not> replay_ok env (mk_item k v)"
      by simp
    ultimately show ?case
      using Cons.IH by simp
  qed
  then show ?thesis
    by (auto simp: queue_def dest: snapshot_member)
qed

lemma process_offline:
  "processUploadQueue offline (Some two_queued) =
     (Inr [Failed NetworkError, Failed NetworkError], Some two_queued)"
  by (simp add: processUploadQueue_def openDB_def getAllFromStore_def objectStore_def
      offline_def two_queued_def handler_def)

lemma process_cursor_broken:
  "processUploadQueue cursor_broken (Some two_queued) = (Inl CursorError, Some two_queued)"
  by (simp add: processUploadQueue_def openDB_def getAllFromStore_def objectStore_def
      cursor_broken_def)

theorem failed_entry_stays_queued_witness:
  "wf_store (objectStore (Some two_queued)) \<and> (2, face_scan) \<in> set (queue (Some two_queued)) \<and>
   \<not> replay_ok offline (mk_item 2 face_scan) \<and> \<not> replay_ok server_down (mk_item 2 face_scan) \<and>
   \<not> replay_ok first_unreachable (mk_item 1 document_upload) \<and>
   drain_cycles [offline, server_down, cursor_broken, offline] (Some two_queued) = Some two_queued \<and>
   (2, face_scan) \<in> set (queue (drain_cycles [offline, server_down, cursor_broken, offline] (Some two_queued))) \<and>
   (1, document_upload) \<in> set (queue (drain_cycles [first_unreachable, first_unreachable] (Some two_queued))) \<and>
   getAllFromStore online (objectStore (drain_cycles [first_unreachable, first_unreachable] (Some two_queued)))
     = Inr [mk_item 1 document_upload]"
proof -
  have a: "\<not> replay_ok offline (mk_item 2 face_scan)" "\<not> replay_ok server_down (mk_item 2 face_scan)"
    "\<not> replay_ok first_unreachable (mk_item 1 document_upload)"
    by (simp_all add: replay_ok_def offline_def server_down_def first_unreachable_def response_ok_def
        mk_item_def)
  have b: "(2, face_scan) \<in> set (queue (Some two_queued))" "(1, document_upload) \<in> set (queue (Some two_queued))"
    by (simp_all add: queue_Some two_queued_def)
  have c: "drain_cycles [offline, server_down, cursor_broken, offline] (Some two_queued) = Some two_queued"
    by (simp add: process_offline process_server_down process_cursor_broken)
  have d: "processUploadQueue first_unreachable (Some \<lparr>records = [(1, document_upload)], next_key = 3\<rparr>)
      = (Inr [Failed NetworkError], Some \<lparr>records = [(1, document_upload)], next_key = 3\<rparr>)"
    by (simp add: processUploadQueue_def openDB_def getAllFromStore_def objectStore_def
      first_unreachable_def handler_def mk_item_def)
  have e: "drain_cycles [first_unreachable, first_unreachable] (Some two_queued)
      = Some \<lparr>records = [(1, document_upload)], next_key = 3\<rparr>"
    by (simp add: process_first_unreachable d [unfolded One_nat_def])
  have f: "getAllFromStore online (objectStore (Some \<lparr>records = [(1, document_upload)], next_key = 3\<rparr>))
      = Inr [mk_item 1 document_upload]"
    by (simp add: getAllFromStore_def online_def objectStore_def)
  from failed_entry_stays_queued [of "Some two_queued" 2 face_scan "[offline, server_down, cursor_broken, offline]" online]
    failed_entry_stays_queued [of "Some two_queued" 1 document_upload "[first_unreachable, first_unreachable]" online]
  show ?thesis
    using a b c e f wf_two_queued by (simp add: objectStore_def)
qed

subsection \<open>A deletion that fails\<close>

text \<open>
  C10. When the replay of a record is answered with a success status and the deletion of
  its key then fails, the error ends in the \<^verbatim>\<open>catch\<close> of that record's callback: the cycle
  resolves, the record's console line is the deletion error, the record is still in the
  store, and a later cycle that takes its snapshot has the record in it and replays it
  again (so that, the store then carrying out the deletion, the later cycle removes it).
\<close>

theorem failed_deletion_caught:
  assumes "wf_store (objectStore db)" and "\<not> open_fails env" and "\<not> cursor_fails env"
    and "i < length (queue db)" and "queue db ! i = (k, v)"
    and "replay_ok env (mk_item k v)" and "del_fails env k"
  shows "(\<exists>logs. fst (processUploadQueue env db) = Inr logs \<and> length logs = length (queue db) \<and>
            logs ! i = Failed DeleteError) \<and>
         (k, v) \<in> set (queue (snd (processUploadQueue env db))) \<and>
         (\<not> cursor_fails env' \<longrightarrow>
            (\<exists>items. getAllFromStore env' (objectStore (snd (processUploadQueue env db))) = Inr items \<and>
               mk_item k v \<in> set items)) \<and>
         (\<not> open_fails env' \<and> \<not> cursor_fails env' \<and> replay_ok env' (mk_item k v) \<and> \<not> del_fails env' k \<longrightarrow>
            k \<notin> keys (objectStore (snd (processUploadQueue env' (snd (processUploadQueue env db))))))"
proof (intro conjI impI)
  have "fst (handler env (mk_item k v) (objectStore db)) = Failed DeleteError"
    using assms(6,7) by (cases "net env (mk_item k v)") (simp_all add: handler_line replay_ok_def key_mk_item)
  with process_line_nth [OF assms(2-5), of "objectStore db"]
  show "\<exists>logs. fst (processUploadQueue env db) = Inr logs \<and> length logs = length (queue db) \<and>
            logs ! i = Failed DeleteError"
    by simp
next
  from assms(4,5) have mem: "(k, v) \<in> set (queue db)"
    by (metis nth_mem)
  from assms(7) have "\<not> removes env (mk_item k v)"
    by (simp add: removes_def key_mk_item)
  with assms(1) mem show stays: "(k, v) \<in> set (queue (snd (processUploadQueue env db)))"
    by (rule not_removes_stays)
  {
    assume "\<not> cursor_fails env'"
    with stays
    show "\<exists>items. getAllFromStore env' (objectStore (snd (processUploadQueue env db))) = Inr items \<and>
               mk_item k v \<in> set items"
      by (auto simp: queue_def dest: snapshot_member)
  }
  {
    assume later: "\<not> open_fails env' \<and> \<not> cursor_fails env' \<and> replay_ok env' (mk_item k v) \<and> \<not> del_fails env' k"
    then have "removes env' (mk_item k v)"
      by (simp add: removes_def key_mk_item)
    moreover from assms(1) have "wf_store (objectStore (snd (processUploadQueue env db)))"
      by (rule wf_process)
    ultimately show "k \<notin> keys (objectStore (snd (processUploadQueue env' (snd (processUploadQueue env db)))))"
      using later stays by (intro removes_gone) simp_all
  }
qed

lemma process_delete_broken:
  "processUploadQueue delete_broken (Some two_queued) =
     (Inr [Failed DeleteError, Uploaded], Some \<lparr>records = [(1, document_upload)], next_key = 3\<rparr>)"
  by (simp add: processUploadQueue_def openDB_def getAllFromStore_def objectStore_def
      delete_broken_def two_queued_def handler_def response_ok_def deleteFromStore_def
      store_delete_def mk_item_def)

lemma process_online_one:
  "processUploadQueue online (Some \<lparr>records = [(1, document_upload)], next_key = 3\<rparr>) =
     (Inr [Uploaded], Some \<lparr>records = [], next_key = 3\<rparr>)"
  by (simp add: processUploadQueue_def openDB_def getAllFromStore_def objectStore_def
      online_def handler_def response_ok_def deleteFromStore_def store_delete_def mk_item_def)

theorem failed_deletion_caught_witness:
  "wf_store (objectStore (Some two_queued)) \<and> \<not> open_fails delete_broken \<and> \<not> cursor_fails delete_broken \<and>
   (0::nat) < length (queue (Some two_queued)) \<and> queue (Some two_queued) ! 0 = (1, document_upload) \<and>
   replay_ok delete_broken (mk_item 1 document_upload) \<and> del_fails delete_broken 1 \<and>
   processUploadQueue delete_broken (Some two_queued) =
     (Inr [Failed DeleteError, Uploaded], Some \<lparr>records = [(1, document_upload)], next_key = 3\<rparr>) \<and>
   [Failed DeleteError, Uploaded] ! 0 = Failed DeleteError \<and>
   (1, document_upload) \<in> set (queue (snd (processUploadQueue delete_broken (Some two_queued)))) \<and>
   \<not> open_fails online \<and> \<not> cursor_fails online \<and> replay_ok online (mk_item 1 document_upload) \<and>
   \<not> del_fails online 1 \<and>
   1 \<notin> keys (objectStore (snd (processUploadQueue online (snd (processUploadQueue delete_broken (Some two_queued))))))"
  using failed_deletion_caught [of "Some two_queued" delete_broken 0 1 document_upload online]
  by (simp add: wf_two_queued objectStore_def queue_Some process_delete_broken process_online_one keys_def)
    (simp add: two_queued_def delete_broken_def online_def replay_ok_def response_ok_def)

subsection \<open>Errors of the enumeration step\<close>

text \<open>
  C4 (as amended). An error of the enumeration step is fatal to the cycle and surfaced: if
  the open request or the cursor request fails, the promise of the cycle rejects with that
  error and the object store is as it was. A deletion that fails is not surfaced: whatever
  the deletions do, a cycle that has taken its snapshot resolves.
\<close>

theorem enumeration_error_surfaced:
  "(open_fails env \<or> cursor_fails env \<longrightarrow>
      (\<exists>e. fst (processUploadQueue env db) = Inl e) \<and>
      objectStore (snd (processUploadQueue env db)) = objectStore db) \<and>
   (\<not> open_fails env \<and> \<not> cursor_fails env \<longrightarrow>
      (\<exists>logs. fst (processUploadQueue env db) = Inr logs \<and> length logs = length (queue db)))"
  by (cases "open_fails env"; cases "cursor_fails env")
    (simp_all add: process_open_rejects process_cursor_rejects process_resolves objectStore_def)

theorem enumeration_error_surfaced_witness:
  "cursor_fails cursor_broken \<and>
   fst (processUploadQueue cursor_broken (Some two_queued)) = Inl CursorError \<and>
   objectStore (snd (processUploadQueue cursor_broken (Some two_queued))) = objectStore (Some two_queued) \<and>
   \<not> open_fails delete_broken \<and> \<not> cursor_fails delete_broken \<and>
   fst (processUploadQueue delete_broken (Some two_queued)) = Inr [Failed DeleteError, Uploaded]"
  using enumeration_error_surfaced [of cursor_broken "Some two_queued"]
    enumeration_error_surfaced [of delete_broken "Some two_queued"]
  by (simp add: process_cursor_broken process_delete_broken)
    (simp add: cursor_broken_def delete_broken_def)

text \<open>
  The claim as stated fails for a deletion: with the deletion of key 1 failing, the cycle
  over the two queued requests resolves (nothing reaches the caller), and the queue is not
  as it was, since the second request has been removed.
\<close>

theorem deletion_error_not_surfaced:
  "del_fails delete_broken 1 \<and> replay_ok delete_broken (mk_item 1 document_upload) \<and>
   queue (Some two_queued) = [(1, document_upload), (2, face_scan)] \<and>
   fst (processUploadQueue delete_broken (Some two_queued)) = Inr [Failed DeleteError, Uploaded] \<and>
   queue (snd (processUploadQueue delete_broken (Some two_queued))) = [(1, document_upload)] \<and>
   queue (snd (processUploadQueue delete_broken (Some two_queued))) \<noteq> queue (Some two_queued)"
  by (simp add: process_delete_broken queue_Some)
    (simp add: delete_broken_def two_queued_def replay_ok_def response_ok_def)

subsection \<open>Idempotent deletion\<close>

text \<open>
  C5. Deletion is idempotent. The storage layer not failing the request, \<^verbatim>\<open>deleteFromStore\<close>
  resolves; for a key that is not in the store it resolves with the store as it was; and a
  second deletion of the same key resolves too, with the store that the first deletion
  left.
\<close>

theorem deleteFromStore_idempotent:
  assumes "\<not> del_fails env k"
  shows "(k \<notin> keys st \<longrightarrow> deleteFromStore env st k = Inr st) \<and>
         (\<exists>st1. deleteFromStore env st k = Inr st1 \<and> k \<notin> keys st1 \<and>
            deleteFromStore env st1 k = Inr st1)"
  using assms
  by (simp add: deleteFromStore_def store_delete_absent keys_store_delete)

theorem deleteFromStore_idempotent_witness:
  "\<not> del_fails online 1 \<and> \<not> del_fails online 7 \<and> 7 \<notin> keys two_queued \<and>
   deleteFromStore online two_queued 7 = Inr two_queued \<and>
   deleteFromStore online two_queued 1 = Inr \<lparr>records = [(2, face_scan)], next_key = 3\<rparr> \<and>
   deleteFromStore online \<lparr>records = [(2, face_scan)], next_key = 3\<rparr> 1
     = Inr \<lparr>records = [(2, face_scan)], next_key = 3\<rparr>"
  using deleteFromStore_idempotent [of online 1 two_queued]
    deleteFromStore_idempotent [of online 7 two_queued]
  by (simp add: deleteFromStore_def store_delete_def online_def two_queued_def keys_def)

subsection \<open>The listener of the sync event\<close>

text \<open>
  C9. A \<^verbatim>\<open>sync\<close> event with a tag other than \<^verbatim>\<open>sync-uploads\<close> starts no drain cycle: nothing
  is replayed and the database is as it was.
\<close>

theorem other_sync_tag_ignored:
  "tag \<noteq> ''sync-uploads'' \<Longrightarrow> on_sync tag env db = (None, db)"
  by (simp add: on_sync_def)

theorem other_sync_tag_ignored_witness:
  "''sync-photos'' \<noteq> ''sync-uploads'' \<and>
   on_sync ''sync-photos'' online (Some two_queued) = (None, Some two_queued) \<and>
   on_sync ''sync-uploads'' online (Some two_queued)
     = (Some (Inr [Uploaded, Uploaded]), Some \<lparr>records = [], next_key = 3\<rparr>)"
  using other_sync_tag_ignored [of "''sync-photos''" online "Some two_queued"]
  by (simp add: on_sync_def process_online)

subsection \<open>Keys and insertion order\<close>

lemma store_record_append:
  "list_all (\<lambda>(k', v'). k' < k) rs \<Longrightarrow> store_record k v rs = rs @ [(k, v)]"
  by (induction rs) auto

lemma store_put_append:
  "wf_store st \<Longrightarrow>
   store_put r st =
     (next_key st, \<lparr>records = records st @ [(next_key st, r)], next_key = Suc (next_key st)\<rparr>)"
  by (simp add: store_put_def wf_store_def store_record_append)

lemma wf_store_put: "wf_store st \<Longrightarrow> wf_store (snd (store_put r st))"
  by (auto simp: store_put_append wf_store_def sorted_wrt_append list_all_iff less_Suc_eq)

lemma run_ops_append:
  "run_ops (ops @ ops') st =
     (fst (run_ops ops st) @ fst (run_ops ops' (snd (run_ops ops st))),
      snd (run_ops ops' (snd (run_ops ops st))))"
proof (induction ops arbitrary: st)
  case Nil
  show ?case by simp
next
  case (Cons op ops)
  show ?case
    using Cons.IH by (cases op) (simp_all add: split_beta Let_def)
qed

lemma wf_run_ops: "wf_store st \<Longrightarrow> wf_store (snd (run_ops ops st))"
proof (induction ops arbitrary: st)
  case Nil
  then show ?case by simp
next
  case (Cons op ops)
  show ?case
  proof (cases op)
    case (Put r)
    from Cons.prems have "wf_store (snd (store_put r st))" by (rule wf_store_put)
    from Cons.IH [OF this] Put show ?thesis by (simp add: split_beta Let_def)
  next
    case (Delete k)
    from Cons.prems have "wf_store (store_delete k st)" by (rule wf_store_delete)
    from Cons.IH [OF this] Delete show ?thesis by simp
  qed
qed

lemma run_ops_records:
  "wf_store st \<Longrightarrow> records (snd (run_ops ops st)) = insertion_order ops (next_key st) (records st)"
proof (induction ops arbitrary: st)
  case Nil
  then show ?case by simp
next
  case (Cons op ops)
  show ?case
  proof (cases op)
    case (Put r)
    from Cons.prems have "wf_store (snd (store_put r st))" by (rule wf_store_put)
    from Cons.IH [OF this] Put Cons.prems show ?thesis
      by (simp add: split_beta Let_def store_put_append)
  next
    case (Delete k)
    from Cons.prems have "wf_store (store_delete k st)" by (rule wf_store_delete)
    from Cons.IH [OF this] Delete show ?thesis by (simp add: store_delete_def)
  qed
qed

lemma run_ops_keys:
  "sorted_wrt (<) (fst (run_ops ops st)) \<and>
   (\<forall>k \<in> set (fst (run_ops ops st)). next_key st \<le> k \<and> k < next_key (snd (run_ops ops st))) \<and>
   next_key st \<le> next_key (snd (run_ops ops st))"
proof (induction ops arbitrary: st)
  case Nil
  show ?case by simp
next
  case (Cons op ops)
  show ?case
  proof (cases op)
    case (Put r)
    from Cons.IH [of "snd (store_put r st)"] Put show ?thesis
      by (fastforce simp: split_beta Let_def store_put_def)
  next
    case (Delete k)
    from Cons.IH [of "store_delete k st"] Delete show ?thesis
      by (simp add: store_delete_def)
  qed
qed

lemma wf_store_keys_below: "wf_store st \<Longrightarrow> k \<in> keys st \<Longrightarrow> k < next_key st"
  by (auto simp: wf_store_def keys_def list_all_iff)

text \<open>
  C7. Keys are fresh and increase. After any history of puts and deletions on a store
  created by \<^verbatim>\<open>openDB\<close>, a put is given a key that is greater than every key given before
  in the history (also the keys of records deleted since) and that no record of the store
  has; the keys given along a history ascend strictly, so no key is given twice.
\<close>

theorem put_key_fresh_and_increasing:
  assumes "run_ops ops createObjectStore = (ks, st)" and "store_put r st = (k, st')"
  shows "(\<forall>k' \<in> set ks. k' < k) \<and> k \<notin> keys st \<and> sorted_wrt (<) (ks @ [k]) \<and> distinct (ks @ [k])"
proof -
  from assms(1) have ks: "ks = fst (run_ops ops createObjectStore)"
    and st: "st = snd (run_ops ops createObjectStore)"
    by simp_all
  from assms(2) have k: "k = next_key st"
    by (simp add: store_put_def)
  have below: "\<forall>k' \<in> set ks. k' < k"
    using run_ops_keys [of ops createObjectStore] by (simp add: ks st k)
  have "wf_store st"
    unfolding st by (rule wf_run_ops) (rule wf_createObjectStore)
  then have fresh: "k \<notin> keys st"
    using wf_store_keys_below [of st k] by (auto simp: k)
  have sorted: "sorted_wrt (<) (ks @ [k])"
    using run_ops_keys [of ops createObjectStore] below by (simp add: ks sorted_wrt_append)
  then have "distinct (ks @ [k])"
    using strict_sorted_iff by blast
  with below fresh sorted show ?thesis by simp
qed


lemma run_ops_example:
  "run_ops [Put document_upload, Put face_scan, Delete 2] createObjectStore =
     ([1, 2], \<lparr>records = [(1, document_upload)], next_key = 3\<rparr>)"
  by (simp add: createObjectStore_def store_put_def store_delete_def)

lemma store_put_example:
  "store_put status_request \<lparr>records = [(1, document_upload)], next_key = 3\<rparr> =
     (3, \<lparr>records = [(1, document_upload), (3, status_request)], next_key = 4\<rparr>)"
  by (simp add: store_put_def)

theorem put_key_fresh_and_increasing_witness:
  "run_ops [Put document_upload, Put face_scan, Delete 2] createObjectStore =
     ([1, 2], \<lparr>records = [(1, document_upload)], next_key = 3\<rparr>) \<and>
   store_put status_request \<lparr>records = [(1, document_upload)], next_key = 3\<rparr> =
     (3, \<lparr>records = [(1, document_upload), (3, status_request)], next_key = 4\<rparr>) \<and>
   (1::nat) < 3 \<and> (2::nat) < 3 \<and> 3 \<notin> keys \<lparr>records = [(1, document_upload)], next_key = 3\<rparr> \<and>
   sorted_wrt (<) ([1, 2] @ [3::nat]) \<and> distinct ([1, 2] @ [3::nat])"
  using put_key_fresh_and_increasing [OF run_ops_example store_put_example]
    run_ops_example store_put_example
  by simp

text \<open>
  C6. Enumeration in insertion order. \<^verbatim>\<open>getAllFromStore\<close> resolves with one element for every
  record of the store, in the order of the records, each with the record's key and the url,
  method, headers and body of its request, and only reads the store; for a store without
  records it resolves with the empty list. After any history of puts and deletions on a
  store created by \<^verbatim>\<open>openDB\<close>, the enumeration is the queue of the spec: the requests that
  were put and not deleted, in the order in which they were put, each under its key. In
  particular three puts in a row, after any history, add their three requests with their
  contents at the end of the enumeration in the order of the puts, under three successive
  keys, and on a new store the enumeration is exactly these three, under the keys 1, 2, 3.
\<close>

theorem list_in_insertion_order:
  assumes "\<not> cursor_fails env"
  shows "getAllFromStore env (snd (run_ops ops createObjectStore)) =
           Inr (map (\<lambda>(k, v). \<lparr>url = url v, method' = method' v, headers = headers v, body = body v, key = k\<rparr>)
                  (insertion_order ops 1 [])) \<and>
         (let n = next_key (snd (run_ops ops createObjectStore)) in
            getAllFromStore env (snd (run_ops (ops @ [Put r1, Put r2, Put r3]) createObjectStore)) =
              Inr (map (\<lambda>(k, v). \<lparr>url = url v, method' = method' v, headers = headers v, body = body v, key = k\<rparr>)
                     (insertion_order ops 1 []) @
                   [\<lparr>url = url r1, method' = method' r1, headers = headers r1, body = body r1, key = n\<rparr>,
                    \<lparr>url = url r2, method' = method' r2, headers = headers r2, body = body r2, key = Suc n\<rparr>,
                    \<lparr>url = url r3, method' = method' r3, headers = headers r3, body = body r3,
                     key = Suc (Suc n)\<rparr>])) \<and>
         getAllFromStore env (snd (run_ops [Put r1, Put r2, Put r3] createObjectStore)) =
           Inr [\<lparr>url = url r1, method' = method' r1, headers = headers r1, body = body r1, key = 1\<rparr>,
                \<lparr>url = url r2, method' = method' r2, headers = headers r2, body = body r2, key = 2\<rparr>,
                \<lparr>url = url r3, method' = method' r3, headers = headers r3, body = body r3, key = 3\<rparr>] \<and>
         (\<exists>items. getAllFromStore env st = Inr items \<and>
            map (\<lambda>i. (key i, url i, method' i, headers i, body i)) items =
            map (\<lambda>(k, v). (k, url v, method' v, headers v, body v)) (records st)) \<and>
         (records st = [] \<longrightarrow> getAllFromStore env st = Inr [])"
proof (intro conjI impI)
  show a: "getAllFromStore env (snd (run_ops ops createObjectStore)) =
           Inr (map (\<lambda>(k, v). \<lparr>url = url v, method' = method' v, headers = headers v, body = body v, key = k\<rparr>)
                  (insertion_order ops 1 []))" for ops
    using assms run_ops_records [OF wf_createObjectStore, of ops]
    by (simp add: getAllFromStore_resolves createObjectStore_def mk_item_def)
  have wf: "wf_store (snd (run_ops ops createObjectStore))"
    by (rule wf_run_ops) (rule wf_createObjectStore)
  have "records (snd (run_ops (ops @ [Put r1, Put r2, Put r3]) createObjectStore)) =
      records (snd (run_ops ops createObjectStore)) @
        [(next_key (snd (run_ops ops createObjectStore)), r1),
         (Suc (next_key (snd (run_ops ops createObjectStore))), r2),
         (Suc (Suc (next_key (snd (run_ops ops createObjectStore)))), r3)]"
  proof -
    have "snd (run_ops (ops @ [Put r1, Put r2, Put r3]) createObjectStore) =
        snd (run_ops [Put r1, Put r2, Put r3] (snd (run_ops ops createObjectStore)))"
      by (simp only: run_ops_append snd_conv)
    moreover have "records (snd (run_ops [Put r1, Put r2, Put r3] (snd (run_ops ops createObjectStore)))) =
        insertion_order [Put r1, Put r2, Put r3] (next_key (snd (run_ops ops createObjectStore)))
          (records (snd (run_ops ops createObjectStore)))"
      using wf by (rule run_ops_records)
    ultimately show ?thesis by simp
  qed
  then show "let n = next_key (snd (run_ops ops createObjectStore)) in
            getAllFromStore env (snd (run_ops (ops @ [Put r1, Put r2, Put r3]) createObjectStore)) =
              Inr (map (\<lambda>(k, v). \<lparr>url = url v, method' = method' v, headers = headers v, body = body v, key = k\<rparr>)
                     (insertion_order ops 1 []) @
                   [\<lparr>url = url r1, method' = method' r1, headers = headers r1, body = body r1, key = n\<rparr>,
                    \<lparr>url = url r2, method' = method' r2, headers = headers r2, body = body r2, key = Suc n\<rparr>,
                    \<lparr>url = url r3, method' = method' r3, headers = headers r3, body = body r3,
                     key = Suc (Suc n)\<rparr>])"
    using assms run_ops_records [OF wf_createObjectStore, of ops]
    by (simp add: getAllFromStore_resolves createObjectStore_def Let_def mk_item_def)
  show "getAllFromStore env (snd (run_ops [Put r1, Put r2, Put r3] createObjectStore)) =
           Inr [\<lparr>url = url r1, method' = method' r1, headers = headers r1, body = body r1, key = 1\<rparr>,
                \<lparr>url = url r2, method' = method' r2, headers = headers r2, body = body r2, key = 2\<rparr>,
                \<lparr>url = url r3, method' = method' r3, headers = headers r3, body = body r3, key = 3\<rparr>]"
    using a [of "[Put r1, Put r2, Put r3]"] by (simp add: eval_nat_numeral)
  show "\<exists>items. getAllFromStore env st = Inr items \<and>
            map (\<lambda>i. (key i, url i, method' i, headers i, body i)) items =
            map (\<lambda>(k, v). (k, url v, method' v, headers v, body v)) (records st)"
    using assms by (simp add: getAllFromStore_resolves mk_item_def comp_def split_beta)
  show "getAllFromStore env st = Inr []" if "records st = []"
    using assms that by (simp add: getAllFromStore_resolves)
qed

theorem list_in_insertion_order_witness:
  "\<not> cursor_fails online \<and>
   getAllFromStore online (snd (run_ops [Put document_upload, Put face_scan, Delete 1, Put status_request]
       createObjectStore)) =
     Inr [\<lparr>url = ''/api/kyc/face-scan'', method' = ''POST'', headers = [], body = ''face-scan'', key = 2\<rparr>,
          \<lparr>url = ''/api/user/status/42'', method' = ''GET'', headers = [], body = [], key = 3\<rparr>] \<and>
   insertion_order [Put document_upload, Put face_scan, Delete 1, Put status_request] 1 [] =
     [(2, face_scan), (3, status_request)] \<and>
   getAllFromStore online (snd (run_ops [Put document_upload, Put face_scan, Put status_request]
       createObjectStore)) =
     Inr [\<lparr>url = ''/api/kyc/document-upload'', method' = ''POST'', headers = [], body = ''document'', key = 1\<rparr>,
          \<lparr>url = ''/api/kyc/face-scan'', method' = ''POST'', headers = [], body = ''face-scan'', key = 2\<rparr>,
          \<lparr>url = ''/api/user/status/42'', method' = ''GET'', headers = [], body = [], key = 3\<rparr>] \<and>
   records createObjectStore = [] \<and> getAllFromStore online createObjectStore = Inr []"
  using list_in_insertion_order [of online "[Put document_upload, Put face_scan, Delete 1, Put status_request]"
      document_upload face_scan status_request createObjectStore]
  by (simp add: online_def getAllFromStore_def createObjectStore_def store_put_def store_delete_def
      mk_item_def document_upload_def face_scan_def status_request_def)

subsection \<open>Two cycles that overlap\<close>

lemma cycle_ok_emptied: "cycle_ok k v q c \<Longrightarrow> cycle_ok k v [] c"
  by (simp add: cycle_ok_def split: cycle.splits)

lemma handler_sole_record:
  assumes "replay_ok env (mk_item k v)" and "\<not> del_fails env k"
    and "queue db = [(k, v)] \<or> queue db = []"
    and "handler env (mk_item k v) (objectStore db) = (l, st')"
  shows "l = Uploaded \<and> records st' = []"
proof -
  from assms(1,2) have rm: "removes env (mk_item k v)"
    by (simp add: removes_def key_mk_item)
  from assms(1,2) have "fst (handler env (mk_item k v) (objectStore db)) = Uploaded"
    by (cases "net env (mk_item k v)") (simp_all add: handler_line replay_ok_def key_mk_item)
  moreover have "records (snd (handler env (mk_item k v) (objectStore db))) = []"
    using assms(3) rm by (auto simp: handler_store store_delete_def key_mk_item queue_def)
  ultimately show ?thesis using assms(4) by simp
qed

lemma cycle_step_sole_record:
  assumes ok: "\<not> open_fails env" "\<not> cursor_fails env" "replay_ok env (mk_item k v)" "\<not> del_fails env k"
    and step: "cycle_step env (db, c) (db', c')"
    and q: "queue db = [(k, v)] \<or> queue db = []"
    and c: "cycle_ok k v (queue db) c"
  shows "cycle_ok k v (queue db') c' \<and> (queue db' = queue db \<or> queue db' = [])"
  using step
proof (cases rule: cycle_step.cases)
  case (open_rejects e)
  with ok show ?thesis by (simp add: openDB_def)
next
  case (open_resolves st)
  with ok show ?thesis by (auto simp: openDB_def cycle_ok_def queue_def objectStore_def)
next
  case (cursor_rejects e)
  with ok show ?thesis by (simp add: getAllFromStore_def)
next
  case (snapshot reqs)
  with ok q show ?thesis
    by (auto simp: getAllFromStore_resolves cycle_ok_def queue_def)
next
  case (settle req l st' xs ys ls)
  from settle(1) c have "set (xs @ req # ys) \<subseteq> {mk_item k v}" and ls: "set ls \<subseteq> {Uploaded}"
    by (simp_all add: cycle_ok_def)
  then have req: "req = mk_item k v" and rest: "set (xs @ ys) \<subseteq> {mk_item k v}"
    by auto
  from handler_sole_record [OF ok(3,4) q] settle(4) req
  have "l = Uploaded" and "records st' = []"
    by simp_all
  with settle(2,3) ls rest show ?thesis
    by (simp add: cycle_ok_def queue_Some)
next
  case (resolve ls)
  with c show ?thesis
    by (auto simp: cycle_ok_def)
qed

lemma par_run_sole_record:
  assumes okA: "\<not> open_fails envA" "\<not> cursor_fails envA" "replay_ok envA (mk_item k v)" "\<not> del_fails envA k"
    and okB: "\<not> open_fails envB" "\<not> cursor_fails envB" "replay_ok envB (mk_item k v)" "\<not> del_fails envB k"
    and run: "par_run envA envB n s0 s"
    and s0: "s0 = (db, Idle, Idle)"
    and q: "queue db = [(k, v)]"
  shows "(queue (fst s) = [(k, v)] \<and> n = 0 \<or> queue (fst s) = [] \<and> n = 1) \<and>
         cycle_ok k v (queue (fst s)) (fst (snd s)) \<and> cycle_ok k v (queue (fst s)) (snd (snd s))"
  using run s0
proof (induction rule: par_run.induct)
  case (start s)
  with q show ?case by (simp add: cycle_ok_def)
next
  case (step n s s' s'')
  note IH = step.IH [OF step.prems]
  from IH have q': "queue (fst s') = [(k, v)] \<or> queue (fst s') = []"
    by blast
  from step.hyps(2) show ?case
  proof (cases rule: par_step.cases)
    case (first d a d' a' b)
    from IH first(1) have "cycle_ok k v (queue d) a" and b: "cycle_ok k v (queue d) b"
      by simp_all
    with cycle_step_sole_record [OF okA first(3)] q' first(1)
    have a': "cycle_ok k v (queue d') a'" and mono: "queue d' = queue d \<or> queue d' = []"
      by simp_all
    from b mono have "cycle_ok k v (queue d') b"
      by (auto dest: cycle_ok_emptied)
    with a' mono IH first(1,2) show ?thesis
      by (auto simp: removed_def)
  next
    case (second d b d' b' a)
    from IH second(1) have a: "cycle_ok k v (queue d) a" and "cycle_ok k v (queue d) b"
      by simp_all
    with cycle_step_sole_record [OF okB second(3)] q' second(1)
    have b': "cycle_ok k v (queue d') b'" and mono: "queue d' = queue d \<or> queue d' = []"
      by simp_all
    from a mono have "cycle_ok k v (queue d') a"
      by (auto dest: cycle_ok_emptied)
    with b' mono IH second(1,2) show ?thesis
      by (auto simp: removed_def)
  qed
qed

text \<open>
  C8. Two drain cycles that overlap on a queue of one record. Both replays being answered
  with a success status and the storage layer working, every run of the two cycles to
  their ends, however their steps interleave, takes exactly one record out of the store and
  leaves the queue empty; both cycles resolve, and every console line is that of a
  successful upload: the deletion that finds the key already gone raises nothing.
\<close>

theorem overlapping_cycles_remove_once:
  assumes "\<not> open_fails envA" and "\<not> cursor_fails envA"
    and "replay_ok envA (mk_item k v)" and "\<not> del_fails envA k"
    and "\<not> open_fails envB" and "\<not> cursor_fails envB"
    and "replay_ok envB (mk_item k v)" and "\<not> del_fails envB k"
    and "queue db = [(k, v)]"
    and "par_run envA envB n (db, Idle, Idle) (db', Done resA, Done resB)"
  shows "queue db' = [] \<and> n = 1 \<and>
         (\<exists>linesA linesB. resA = Inr linesA \<and> resB = Inr linesB \<and>
            set linesA \<subseteq> {Uploaded} \<and> set linesB \<subseteq> {Uploaded})"
  using par_run_sole_record [OF assms(1-8) assms(10) refl assms(9)]
  by (auto simp: cycle_ok_def split: sum.splits)


lemma par_run_stepI:
  "par_run envA envB n s s' \<Longrightarrow> par_step envA envB s' s'' \<Longrightarrow> m = n + removed s' s'' \<Longrightarrow>
   par_run envA envB m s s''"
  by (simp add: par_run.step)

lemma overlapping_run_example:
  "par_run online online 1 (Some one_queued, Idle, Idle)
     (Some \<lparr>records = [], next_key = 2\<rparr>, Done (Inr [Uploaded]), Done (Inr [Uploaded]))"
proof -
  let ?e = "\<lparr>records = [], next_key = 2\<rparr> :: store"
  let ?i = "mk_item 1 document_upload"
  have opened: "cycle_step online (Some one_queued, Idle) (Some one_queued, Opened)"
    by (rule cycle_step.open_resolves) (simp add: openDB_def online_def objectStore_def)
  have snap: "cycle_step online (Some one_queued, Opened) (Some one_queued, Running [?i] [])"
    by (rule cycle_step.snapshot)
      (simp add: getAllFromStore_def online_def objectStore_def one_queued_def)
  have h1: "handler online ?i (objectStore (Some one_queued)) = (Uploaded, ?e)"
    by (simp add: handler_def online_def response_ok_def deleteFromStore_def store_delete_def
        objectStore_def one_queued_def mk_item_def)
  have h2: "handler online ?i (objectStore (Some ?e)) = (Uploaded, ?e)"
    by (simp add: handler_def online_def response_ok_def deleteFromStore_def store_delete_def
        objectStore_def)
  have settle1: "cycle_step online (Some one_queued, Running [?i] []) (Some ?e, Running [] [Uploaded])"
    using cycle_step.settle [where env = online and xs = "[]" and ys = "[]" and ls = "[]", OF h1]
    by simp
  have settle2: "cycle_step online (Some ?e, Running [?i] []) (Some ?e, Running [] [Uploaded])"
    using cycle_step.settle [where env = online and xs = "[]" and ys = "[]" and ls = "[]", OF h2]
    by simp
  have fin: "cycle_step online (db, Running [] [Uploaded]) (db, Done (Inr [Uploaded]))" for db
    by (rule cycle_step.resolve)
  have r0: "par_run online online 0 (Some one_queued, Idle, Idle) (Some one_queued, Idle, Idle)"
    by (rule par_run.start)
  have r1: "par_run online online 0 (Some one_queued, Idle, Idle) (Some one_queued, Opened, Idle)"
    by (rule par_run_stepI [OF r0 par_step.first [OF opened]]) (simp add: removed_def)
  have r2: "par_run online online 0 (Some one_queued, Idle, Idle) (Some one_queued, Opened, Opened)"
    by (rule par_run_stepI [OF r1 par_step.second [OF opened]]) (simp add: removed_def)
  have r3: "par_run online online 0 (Some one_queued, Idle, Idle)
      (Some one_queued, Running [?i] [], Opened)"
    by (rule par_run_stepI [OF r2 par_step.first [OF snap]]) (simp add: removed_def)
  have r4: "par_run online online 0 (Some one_queued, Idle, Idle)
      (Some one_queued, Running [?i] [], Running [?i] [])"
    by (rule par_run_stepI [OF r3 par_step.second [OF snap]]) (simp add: removed_def)
  have r5: "par_run online online 1 (Some one_queued, Idle, Idle)
      (Some ?e, Running [] [Uploaded], Running [?i] [])"
    by (rule par_run_stepI [OF r4 par_step.first [OF settle1]])
      (simp add: removed_def queue_Some one_queued_def)
  have r6: "par_run online online 1 (Some one_queued, Idle, Idle)
      (Some ?e, Running [] [Uploaded], Running [] [Uploaded])"
    by (rule par_run_stepI [OF r5 par_step.second [OF settle2]]) (simp add: removed_def)
  have r7: "par_run online online 1 (Some one_queued, Idle, Idle)
      (Some ?e, Done (Inr [Uploaded]), Running [] [Uploaded])"
    by (rule par_run_stepI [OF r6 par_step.first [OF fin]]) (simp add: removed_def)
  show ?thesis
    by (rule par_run_stepI [OF r7 par_step.second [OF fin]]) (simp add: removed_def)
qed

theorem overlapping_cycles_remove_once_witness:
  "\<not> open_fails online \<and> \<not> cursor_fails online \<and> replay_ok online (mk_item 1 document_upload) \<and>
   \<not> del_fails online 1 \<and> queue (Some one_queued) = [(1, document_upload)] \<and>
   par_run online online 1 (Some one_queued, Idle, Idle)
     (Some \<lparr>records = [], next_key = 2\<rparr>, Done (Inr [Uploaded]), Done (Inr [Uploaded])) \<and>
   queue (Some \<lparr>records = [], next_key = 2\<rparr>) = [] \<and> set [Uploaded] \<subseteq> {Uploaded}"
proof -
  have ok: "\<not> open_fails online" "\<not> cursor_fails online" "replay_ok online (mk_item 1 document_upload)"
    "\<not> del_fails online 1"
    by (simp_all add: online_def replay_ok_def response_ok_def)
  have q: "queue (Some one_queued) = [(1, document_upload)]"
    by (simp add: queue_Some one_queued_def)
  from overlapping_cycles_remove_once [OF ok ok q overlapping_run_example] ok q overlapping_run_example
  show ?thesis by simp
qed

subsection \<open>The order in which the callbacks finish\<close>

text \<open>
  \<open>processUploadQueue\<close> runs the callbacks in the order of the snapshot. This is one of the
  runs of a cycle by steps; the store at the end does not depend on the order, and every run
  of one cycle by steps, in whatever order its callbacks finish, ends with the store that
  \<open>processUploadQueue\<close> returns.
\<close>

lemma run_handlers_is_a_run:
  "(cycle_step env)\<^sup>*\<^sup>* (Some st, Running reqs ls)
     (Some (snd (run_handlers env reqs st)), Running [] (ls @ fst (run_handlers env reqs st)))"
proof (induction reqs arbitrary: st ls)
  case Nil
  show ?case by simp
next
  case (Cons req reqs)
  have "cycle_step env (Some st, Running (req # reqs) ls)
      (Some (snd (handler env req st)), Running reqs (ls @ [fst (handler env req st)]))"
    using cycle_step.settle [where env = env and req = req and db = "Some st" and xs = "[]" and ys = reqs
        and ls = ls and l = "fst (handler env req st)" and st' = "snd (handler env req st)"]
    by (simp add: objectStore_def)
  with Cons.IH [of "snd (handler env req st)" "ls @ [fst (handler env req st)]"]
  show ?case
    by (simp add: split_beta Let_def converse_rtranclp_into_rtranclp)
qed

lemma processUploadQueue_is_a_run:
  "(cycle_step env)\<^sup>*\<^sup>* (db, Idle) (snd (processUploadQueue env db), Done (fst (processUploadQueue env db)))"
proof (cases "open_fails env")
  case True
  then have "cycle_step env (db, Idle) (db, Done (Inl OpenError))"
    by (intro cycle_step.open_rejects) (simp add: openDB_def)
  with True show ?thesis
    by (simp add: process_open_rejects)
next
  case False
  note open_ok = False
  then have opened: "cycle_step env (db, Idle) (Some (objectStore db), Opened)"
    by (intro cycle_step.open_resolves) (simp add: openDB_def)
  show ?thesis
  proof (cases "cursor_fails env")
    case True
    then have "cycle_step env (Some (objectStore db), Opened) (Some (objectStore db), Done (Inl CursorError))"
      by (intro cycle_step.cursor_rejects) (simp add: getAllFromStore_def)
    with opened have "(cycle_step env)\<^sup>*\<^sup>* (db, Idle) (Some (objectStore db), Done (Inl CursorError))"
      by (meson converse_rtranclp_into_rtranclp r_into_rtranclp)
    with open_ok True show ?thesis
      by (simp add: process_cursor_rejects)
  next
    case False
    let ?reqs = "map (\<lambda>(k, v). mk_item k v) (queue db)"
    let ?r = "run_handlers env ?reqs (objectStore db)"
    from False have "cycle_step env (Some (objectStore db), Opened) (Some (objectStore db), Running ?reqs [])"
      by (intro cycle_step.snapshot) (simp add: getAllFromStore_resolves objectStore_def queue_def)
    with opened have "(cycle_step env)\<^sup>*\<^sup>* (db, Idle) (Some (objectStore db), Running ?reqs [])"
      by (meson converse_rtranclp_into_rtranclp r_into_rtranclp)
    also have "(cycle_step env)\<^sup>*\<^sup>* (Some (objectStore db), Running ?reqs []) (Some (snd ?r), Running [] (fst ?r))"
      using run_handlers_is_a_run [of env "objectStore db" ?reqs "[]"] by simp
    also have "cycle_step env (Some (snd ?r), Running [] (fst ?r)) (Some (snd ?r), Done (Inr (fst ?r)))"
      by (rule cycle_step.resolve)
    finally have "(cycle_step env)\<^sup>*\<^sup>* (db, Idle) (Some (snd ?r), Done (Inr (fst ?r)))" .
    moreover have "processUploadQueue env db = (Inr (fst ?r), Some (snd ?r))"
      using open_ok False
      by (simp add: processUploadQueue_def openDB_def getAllFromStore_resolves split_beta queue_def)
    ultimately show ?thesis
      by simp
  qed
qed

lemma run_handlers_order:
  "set reqs' = set reqs \<Longrightarrow> snd (run_handlers env reqs' st) = snd (run_handlers env reqs st)"
  by (rule store.equality) (simp_all add: run_handlers_records run_handlers_next_key)

lemma run_handlers_settle:
  "snd (run_handlers env (xs @ ys) (snd (handler env req st))) =
   snd (run_handlers env (xs @ req # ys) st)"
proof -
  have "snd (run_handlers env (xs @ ys) (snd (handler env req st))) =
      snd (run_handlers env (req # xs @ ys) st)"
    by (simp add: split_beta Let_def)
  also have "\<dots> = snd (run_handlers env (xs @ req # ys) st)"
    by (rule run_handlers_order) auto
  finally show ?thesis .
qed

lemma done_is_final: "(cycle_step env)\<^sup>*\<^sup>* (db, Done res) (db', c') \<Longrightarrow> db' = db \<and> c' = Done res"
  by (induction rule: rtranclp_induct2) (auto elim: cycle_step.cases)

lemma cycle_run_final_store:
  assumes "(cycle_step env)\<^sup>*\<^sup>* (db, c) (db', c')"
  shows "c = Running reqs ls \<Longrightarrow> c' = Done res \<Longrightarrow>
         objectStore db' = snd (run_handlers env reqs (objectStore db))"
  using assms
proof (induction arbitrary: reqs ls rule: converse_rtranclp_induct2)
  case refl
  then show ?case by simp
next
  case (step db c db1 c1)
  from step.hyps(1) step.prems(1) show ?case
  proof (cases rule: cycle_step.cases)
    case (settle req l st' xs ys ls')
    from settle(4) have st': "st' = snd (handler env req (objectStore db))"
      by simp
    from step.IH [of "xs @ ys" "ls' @ [l]"] settle(2,3) step.prems(2)
    have "objectStore db' = snd (run_handlers env (xs @ ys) st')"
      by (simp add: objectStore_def)
    moreover from settle(1) step.prems(1) have "reqs = xs @ req # ys"
      by simp
    ultimately show ?thesis
      by (simp only: st' run_handlers_settle)
  next
    case (resolve ls')
    with step.hyps(2) have "db' = db"
      by (auto dest: done_is_final)
    with resolve step.prems show ?thesis by simp
  qed simp_all
qed


lemma cycle_run_agrees:
  assumes run: "(cycle_step env)\<^sup>*\<^sup>* (db, Idle) (db', Done res)"
  shows "objectStore db' = objectStore (snd (processUploadQueue env db))"
proof -
  from run obtain db1 c1 where s1: "cycle_step env (db, Idle) (db1, c1)"
    and r1: "(cycle_step env)\<^sup>*\<^sup>* (db1, c1) (db', Done res)"
    by (auto elim: converse_rtranclpE)
  from s1 show ?thesis
  proof (cases rule: cycle_step.cases)
    case (open_rejects e)
    with r1 have "db' = db"
      by (auto dest: done_is_final)
    moreover from open_rejects have "open_fails env"
      by (simp add: openDB_def split: if_splits)
    ultimately show ?thesis
      by (simp add: process_open_rejects)
  next
    case (open_resolves st)
    then have open_ok: "\<not> open_fails env" and st: "st = objectStore db"
      by (simp_all add: openDB_def split: if_splits)
    from r1 open_resolves obtain db2 c2 where s2: "cycle_step env (Some st, Opened) (db2, c2)"
      and r2: "(cycle_step env)\<^sup>*\<^sup>* (db2, c2) (db', Done res)"
      by (auto elim: converse_rtranclpE)
    from s2 show ?thesis
    proof (cases rule: cycle_step.cases)
      case (cursor_rejects e)
      with r2 have "db' = Some st"
        by (auto dest: done_is_final)
      moreover from cursor_rejects have "cursor_fails env"
        by (simp add: getAllFromStore_def split: if_splits)
      ultimately show ?thesis
        using open_ok st by (simp add: process_cursor_rejects)
    next
      case (snapshot reqs)
      then have cursor_ok: "\<not> cursor_fails env"
        and reqs: "reqs = map (\<lambda>(k, v). mk_item k v) (queue db)"
        by (auto simp: getAllFromStore_def cursor_items_append objectStore_def queue_def st
            split: if_splits)
      from r2 snapshot have "(cycle_step env)\<^sup>*\<^sup>* (Some st, Running reqs []) (db', Done res)"
        by simp
      then have "objectStore db' = snd (run_handlers env reqs (objectStore (Some st)))"
        by (rule cycle_run_final_store) simp_all
      with open_ok cursor_ok reqs st show ?thesis
        by (simp add: process_resolves objectStore_def)
    qed
  qed
qed

end
